theory Spec2Isabelle
  imports Main "HOL-Library.Sublist" "HOL-Library.AList" "HOL-Library.Multiset"
begin

section \<open>Python string methods used by \<^verbatim>\<open>scripts/render-template.py\<close>\<close>

text \<open>
  A Python \<^verbatim>\<open>str\<close> is modelled as a \<^typ>\<open>string\<close>, one \<^typ>\<open>char\<close> per character of the
  Python string. A method call \<^verbatim>\<open>s.m(x, y)\<close> becomes \<open>m s x y\<close>, receiver first.
\<close>

text \<open>
  \<^verbatim>\<open>s.partition(sep)\<close>: split at the first occurrence of \<open>sep\<close> into the part before it,
  the separator and the part after it; when \<open>sep\<close> does not occur, the result is
  \<open>(s, "", "")\<close>. The script calls it with \<^verbatim>\<open>"="\<close> only (Python raises
  \<^verbatim>\<open>ValueError\<close> for an empty separator, which the script never passes).
\<close>

fun partition_str :: "string \<Rightarrow> string \<Rightarrow> string \<times> string \<times> string" where
  "partition_str [] sep = ([], [], [])"
| "partition_str (c # cs) sep =
     (if prefix sep (c # cs) then ([], sep, drop (length sep) (c # cs))
      else (case partition_str cs sep of (before, sep', after) \<Rightarrow> (c # before, sep', after)))"

text \<open>\<^verbatim>\<open>s.startswith(p)\<close>.\<close>

definition startswith :: "string \<Rightarrow> string \<Rightarrow> bool" where
  "startswith s p = prefix p s"

text \<open>
  \<^verbatim>\<open>s.rstrip(chars)\<close>: remove from the end of \<open>s\<close> every character that is in
  \<open>chars\<close>, until a character not in \<open>chars\<close> is met.
\<close>

definition rstrip :: "string \<Rightarrow> string \<Rightarrow> string" where
  "rstrip s chars = rev (dropWhile (\<lambda>c. c \<in> set chars) (rev s))"

text \<open>
  \<^verbatim>\<open>s.replace(old, new)\<close>: scan \<open>s\<close> from the left; where \<open>old\<close> starts, emit
  \<open>new\<close> and go on behind that occurrence (occurrences do not overlap, and the text
  emitted is not scanned again); elsewhere copy one character. For an empty \<open>old\<close>
  Python puts \<open>new\<close> before every character and at the end.
\<close>

function replace_str :: "string \<Rightarrow> string \<Rightarrow> string \<Rightarrow> string" where
  "replace_str s old new =
     (if old = [] then new @ concat (map (\<lambda>c. c # new) s)
      else if prefix old s then new @ replace_str (drop (length old) s) old new
      else (case s of [] \<Rightarrow> [] | c # cs \<Rightarrow> c # replace_str cs old new))"
  by pat_completeness auto
termination
  by (relation "measure (\<lambda>(s, old, new). length s)") (auto simp: prefix_def)

declare replace_str.simps [simp del]

section \<open>The world of the script: files, the error stream, the order of file accesses\<close>

text \<open>
  \<open>files\<close> gives for a path the text that \<^verbatim>\<open>Path(path).read_text()\<close> returns, or
  \<open>None\<close> when that call raises (no such file, a directory, no permission);
  \<open>writable\<close> says whether \<^verbatim>\<open>Path(path).write_text(...)\<close> succeeds. A write that
  fails may have created or truncated the file before it raised: \<open>failed_write\<close> gives,
  for the path and the text, what the path holds afterwards (\<open>None\<close> for no readable
  file), and nothing is assumed about it. \<open>stderr\<close> holds what the script printed to
  \<^verbatim>\<open>sys.stderr\<close>, \<open>trace\<close> the file accesses in the order in which they happened.
  A path is the string the script was given. The texts are those of Python's text mode,
  where a line ends in a line feed; the translation of a carriage return in a text
  that is written and read again is not modelled.
\<close>

datatype message =
    Usage string              \<comment> \<open>\<^verbatim>\<open>Usage: {sys.argv[0]} INPUT OUTPUT KEY=value ...\<close>\<close>
  | Invalid_argument string   \<comment> \<open>\<^verbatim>\<open>Invalid argument: {arg!r} (expected KEY=value)\<close>\<close>

datatype event = Read string | Write string

record world =
  files :: "string \<rightharpoonup> string"
  writable :: "string \<Rightarrow> bool"
  failed_write :: "string \<Rightarrow> string \<Rightarrow> string option"
  stderr :: "message list"
  trace :: "event list"

text \<open>How control leaves \<open>main\<close> other than by returning.\<close>

datatype stop =
    SystemExit nat    \<comment> \<open>\<^verbatim>\<open>sys.exit(n)\<close>\<close>
  | OSError string    \<comment> \<open>a file operation on the path raised\<close>
  | IndexError        \<comment> \<open>\<^verbatim>\<open>sys.argv[0]\<close> on an empty \<^verbatim>\<open>sys.argv\<close>\<close>

definition read_text :: "string \<Rightarrow> world \<Rightarrow> (stop + string) \<times> world" where
  "read_text path w =
     (let w' = w\<lparr>trace := trace w @ [Read path]\<rparr>
      in case files w path of
           None \<Rightarrow> (Inl (OSError path), w')
         | Some contents \<Rightarrow> (Inr contents, w'))"

definition write_text :: "string \<Rightarrow> string \<Rightarrow> world \<Rightarrow> (stop + unit) \<times> world" where
  "write_text path data w =
     (let w' = w\<lparr>trace := trace w @ [Write path]\<rparr>
      in if writable w path then (Inr (), w'\<lparr>files := (files w)(path \<mapsto> data)\<rparr>)
         else (Inl (OSError path), w'\<lparr>files := (files w)(path := failed_write w path data)\<rparr>))"

definition print_err :: "message \<Rightarrow> world \<Rightarrow> world" where
  "print_err m w = w\<lparr>stderr := stderr w @ [m]\<rparr>"

section \<open>The script\<close>

text \<open>
  Lines 42 to 53 of \<open>main\<close>: the loop over \<^verbatim>\<open>sys.argv[3:]\<close> that fills the dict
  \<open>replacements\<close>. A Python dict keeps its keys in the order of their first insertion,
  and an assignment to a key that is present replaces the value where the key stands:
  that is \<^const>\<open>AList.update\<close> on an association list.
\<close>

fun parse_replacements ::
  "string list \<Rightarrow> (string \<times> string) list \<Rightarrow> world \<Rightarrow> (stop + (string \<times> string) list) \<times> world" where
  "parse_replacements [] replacements w = (Inr replacements, w)"
| "parse_replacements (arg # args) replacements w =
     (case partition_str arg ''='' of (key, sep, value) \<Rightarrow>
        if key = [] \<or> sep = [] then (Inl (SystemExit 1), print_err (Invalid_argument arg) w)
        else if startswith value ''@'' then
          (case read_text (drop 1 value) w of
             (Inl e, w') \<Rightarrow> (Inl e, w')
           | (Inr contents, w') \<Rightarrow>
               parse_replacements args
                 (AList.update key (rstrip contents [CHR 0x0A]) replacements) w')
        else parse_replacements args (AList.update key value replacements) w)"

text \<open>Lines 56 to 58: one \<^verbatim>\<open>str.replace\<close> per item of the dict, in the dict's order.\<close>

definition placeholder :: "string \<Rightarrow> string" where
  "placeholder key = ''{{'' @ key @ ''}}''"

definition substitute :: "(string \<times> string) list \<Rightarrow> string \<Rightarrow> string" where
  "substitute replacements html =
     fold (\<lambda>(key, value) html. replace_str html (placeholder key) value) replacements html"

definition main :: "string list \<Rightarrow> world \<Rightarrow> (stop + unit) \<times> world" where
  "main argv w =
     (if length argv < 3 then
        (case argv of
           [] \<Rightarrow> (Inl IndexError, w)
         | prog # _ \<Rightarrow> (Inl (SystemExit 1), print_err (Usage prog) w))
      else
        let input_path = argv ! 1; output_path = argv ! 2 in
        case parse_replacements (drop 3 argv) [] w of
          (Inl e, w1) \<Rightarrow> (Inl e, w1)
        | (Inr replacements, w1) \<Rightarrow>
            (case read_text input_path w1 of
               (Inl e, w2) \<Rightarrow> (Inl e, w2)
             | (Inr html, w2) \<Rightarrow> write_text output_path (substitute replacements html) w2))"

text \<open>
  The exit status of the process: 0 when \<open>main\<close> returns, the argument of
  \<^verbatim>\<open>sys.exit\<close>, and 1 when an exception reaches the top level.
\<close>

fun exit_status :: "stop + unit \<Rightarrow> nat" where
  "exit_status (Inr _) = 0"
| "exit_status (Inl (SystemExit n)) = n"
| "exit_status (Inl _) = 1"

section \<open>Auxiliary notions for stating the properties\<close>

text \<open>
  A text has a token when it contains \<open>{{\<close> and, behind it, \<open>}}\<close>: a substring of the
  form \<open>{{...}}\<close>.
\<close>

fun has_token :: "string \<Rightarrow> bool" where
  "has_token [] = False"
| "has_token (c # cs) =
     (prefix ''{{'' (c # cs) \<and> sublist ''}}'' (drop 2 (c # cs)) \<or> has_token cs)"

text \<open>The key of a trailing argument, and the file that its value names, if any.\<close>

definition arg_key :: "string \<Rightarrow> string" where
  "arg_key arg = fst (partition_str arg ''='')"

definition value_file :: "string \<Rightarrow> string option" where
  "value_file arg =
     (case partition_str arg ''='' of (key, sep, value) \<Rightarrow>
        if startswith value ''@'' then Some (drop 1 value) else None)"

text \<open>
  A trailing argument is malformed when it contains no \<open>=\<close> or starts with \<open>=\<close>
  (its key, the text before the first \<open>=\<close>, is empty).
\<close>

definition malformed :: "string \<Rightarrow> bool" where
  "malformed arg = (CHR ''='' \<notin> set arg \<or> prefix ''='' arg)"

text \<open>
  Lines 51 and 52 as a function of the raw value: the text that the loop stores for it,
  \<open>None\<close> when the file it names cannot be read. And the files that the values of a
  list of arguments name, in the order of the arguments.
\<close>

definition resolved_value :: "world \<Rightarrow> string \<Rightarrow> string option" where
  "resolved_value w value =
     (if startswith value ''@''
      then map_option (\<lambda>contents. rstrip contents [CHR 0x0A]) (files w (drop 1 value))
      else Some value)"

definition value_files :: "string list \<Rightarrow> string list" where
  "value_files args = List.map_filter value_file args"

text \<open>
  Templates, for stating what the substitution pass does to a text that is made of
  placeholders and plain text. A key is brace free when it contains neither \<open>{\<close> nor
  \<open>}\<close>; a text has no opening when it does not contain \<open>{{\<close> and does not end in
  \<open>{\<close>, so that no \<open>{{\<close> starts inside it whatever follows. A template is a list of
  pieces, literal text and holes \<open>{{k}}\<close>; it is well formed when its literal pieces have
  no opening and the keys of its holes are brace free. \<open>fill m\<close> puts the value that
  \<open>m\<close> gives for its key into a hole, and leaves the other pieces as they are.
\<close>

definition brace_free :: "string \<Rightarrow> bool" where
  "brace_free k = (CHR ''{'' \<notin> set k \<and> CHR ''}'' \<notin> set k)"

definition no_opening :: "string \<Rightarrow> bool" where
  "no_opening s = (\<not> sublist ''{{'' s \<and> \<not> suffix ''{'' s)"

datatype piece = Lit string | Hole string

fun piece_text :: "piece \<Rightarrow> string" where
  "piece_text (Lit s) = s"
| "piece_text (Hole k) = placeholder k"

definition template_text :: "piece list \<Rightarrow> string" where
  "template_text ps = concat (map piece_text ps)"

fun well_formed_piece :: "piece \<Rightarrow> bool" where
  "well_formed_piece (Lit s) = no_opening s"
| "well_formed_piece (Hole k) = brace_free k"

fun fill :: "(string \<rightharpoonup> string) \<Rightarrow> piece \<Rightarrow> piece" where
  "fill m (Lit s) = Lit s"
| "fill m (Hole k) = (case m k of None \<Rightarrow> Hole k | Some v \<Rightarrow> Lit v)"

text \<open>
  A world for examples: the files listed, every path writable, nothing printed and no
  file touched yet.
\<close>

definition world_of :: "(string \<times> string) list \<Rightarrow> world" where
  "world_of fs =
     \<lparr>files = map_of fs, writable = (\<lambda>path. True), failed_write = (\<lambda>path data. None),
      stderr = [], trace = []\<rparr>"

section \<open>Facts about the string methods\<close>

lemma replace_str_Nil: "old \<noteq> [] \<Longrightarrow> replace_str [] old new = []"
  by (simp add: replace_str.simps)

lemma replace_str_match:
  "old \<noteq> [] \<Longrightarrow> replace_str (old @ rest) old new = new @ replace_str rest old new"
  by (subst replace_str.simps) simp

lemma replace_str_step:
  "old \<noteq> [] \<Longrightarrow> \<not> prefix old (c # cs) \<Longrightarrow>
   replace_str (c # cs) old new = c # replace_str cs old new"
  by (subst replace_str.simps) simp

lemma replace_str_skip:
  "old \<noteq> [] \<Longrightarrow> (\<And>i. i < length a \<Longrightarrow> \<not> prefix old (drop i (a @ rest))) \<Longrightarrow>
   replace_str (a @ rest) old new = a @ replace_str rest old new"
proof (induction a)
  case Nil
  then show ?case by simp
next
  case (Cons c a)
  have "\<not> prefix old ((c # a) @ rest)" using Cons.prems(2) [of 0] by simp
  moreover have "replace_str (a @ rest) old new = a @ replace_str rest old new"
  proof (rule Cons.IH [OF Cons.prems(1)])
    fix i assume "i < length a"
    then show "\<not> prefix old (drop i (a @ rest))" using Cons.prems(2) [of "Suc i"] by simp
  qed
  ultimately show ?case using Cons.prems(1) by (simp add: replace_str_step)
qed

lemma replace_str_absent: "\<not> sublist old s \<Longrightarrow> replace_str s old new = s"
proof (induction s)
  case Nil
  then show ?case by (auto simp: replace_str_Nil)
next
  case (Cons c s)
  then have "old \<noteq> []" by auto
  moreover from Cons.prems have "\<not> prefix old (c # s)" "\<not> sublist old s"
    by (auto simp: sublist_Cons_right)
  ultimately show ?case using Cons.IH by (simp add: replace_str_step)
qed

lemma placeholder_not_Nil [simp]: "placeholder key \<noteq> []"
  by (simp add: placeholder_def)

lemma length_placeholder [simp]: "length (placeholder key) = length key + 4"
  by (simp add: placeholder_def)

lemma substitute_Nil [simp]: "substitute [] html = html"
  by (simp add: substitute_def)

lemma substitute_Cons [simp]:
  "substitute ((key, value) # rs) html = substitute rs (replace_str html (placeholder key) value)"
  by (simp add: substitute_def)

lemma substitute_append [simp]:
  "substitute (rs @ rs') html = substitute rs' (substitute rs html)"
  by (simp add: substitute_def)

lemma has_token_iff: "has_token s \<longleftrightarrow> (\<exists>a x b. s = a @ ''{{'' @ x @ ''}}'' @ b)"
proof (induction s)
  case Nil
  then show ?case by simp
next
  case (Cons c s)
  show ?case
  proof
    assume "has_token (c # s)"
    then consider "prefix ''{{'' (c # s)" "sublist ''}}'' (drop 2 (c # s))" | "has_token s"
      by auto
    then show "\<exists>a x b. c # s = a @ ''{{'' @ x @ ''}}'' @ b"
    proof cases
      case 1
      from 1(1) obtain r where r: "c # s = ''{{'' @ r" by (auto simp: prefix_def)
      with 1(2) obtain x b where "r = x @ ''}}'' @ b" by (auto simp: sublist_def)
      with r have "c # s = [] @ ''{{'' @ x @ ''}}'' @ b" by simp
      then show ?thesis by blast
    next
      case 2
      with Cons.IH obtain a x b where "s = a @ ''{{'' @ x @ ''}}'' @ b" by blast
      then have "c # s = (c # a) @ ''{{'' @ x @ ''}}'' @ b" by simp
      then show ?thesis by blast
    qed
  next
    assume "\<exists>a x b. c # s = a @ ''{{'' @ x @ ''}}'' @ b"
    then obtain a x b where eq: "c # s = a @ ''{{'' @ x @ ''}}'' @ b" by blast
    show "has_token (c # s)"
    proof (cases a)
      case Nil
      with eq have "c # s = ''{{'' @ x @ ''}}'' @ b" by simp
      then have "prefix ''{{'' (c # s)" "drop 2 (c # s) = x @ ''}}'' @ b" by auto
      then show ?thesis by (auto simp: sublist_def simp del: sublist_code)
    next
      case (Cons c' a')
      with eq have "s = a' @ ''{{'' @ x @ ''}}'' @ b" by simp
      with Cons.IH have "has_token s" by blast
      then show ?thesis by simp
    qed
  qed
qed

lemma sublist_placeholder_token:
  "sublist (placeholder key) s \<Longrightarrow> \<exists>a x b. s = a @ ''{{'' @ x @ ''}}'' @ b"
  unfolding sublist_def placeholder_def by (metis append.assoc)

lemma substitute_no_token:
  "\<not> (\<exists>a x b. html = a @ ''{{'' @ x @ ''}}'' @ b) \<Longrightarrow> substitute rs html = html"
proof (induction rs)
  case Nil
  then show ?case by simp
next
  case (Cons r rs)
  obtain key val where r: "r = (key, val)" by (cases r)
  from Cons.prems have "\<not> sublist (placeholder key) html"
    using sublist_placeholder_token by blast
  then have "replace_str html (placeholder key) val = html" by (rule replace_str_absent)
  with Cons r show ?case by simp
qed

lemma partition_str_found:
  "CHR ''='' \<notin> set key \<Longrightarrow> partition_str (key @ ''='' @ v) ''='' = (key, ''='', v)"
  by (induction key) auto

lemma partition_str_cases:
  "partition_str arg ''='' = (k, s, v) \<Longrightarrow>
     (CHR ''='' \<notin> set arg \<and> k = arg \<and> s = [] \<and> v = []) \<or>
     (s = ''='' \<and> arg = k @ ''='' @ v \<and> CHR ''='' \<notin> set k)"
  by (induction arg arbitrary: k s v) (auto split: if_splits prod.splits)

lemma rstrip_decomp: "\<exists>n. s = rstrip s [c] @ replicate n c"
proof -
  let ?P = "\<lambda>x. x \<in> set [c]"
  have "rev s = takeWhile ?P (rev s) @ dropWhile ?P (rev s)" by simp
  then have "s = rev (dropWhile ?P (rev s)) @ rev (takeWhile ?P (rev s))"
    by (metis rev_append rev_rev_ident)
  moreover define t where "t = rev (takeWhile ?P (rev s))"
  moreover have "\<forall>x \<in> set t. x = c"
    unfolding t_def by (auto dest: set_takeWhileD)
  then have "t = replicate (length t) c"
    by (rule replicate_length_same [symmetric])
  ultimately show ?thesis unfolding rstrip_def by metis
qed

lemma rstrip_no_suffix: "\<not> suffix [c] (rstrip s [c])"
proof
  assume "suffix [c] (rstrip s [c])"
  then obtain r where "rstrip s [c] = r @ [c]" by (auto simp: suffix_def)
  then have "dropWhile (\<lambda>x. x \<in> set [c]) (rev s) = c # rev r"
    unfolding rstrip_def by (metis rev.simps(2) rev_rev_ident rev_append append_Nil rev_swap)
  then have "\<not> (c \<in> set [c])" by (metis hd_dropWhile list.sel(1) list.simps(3))
  then show False by simp
qed

lemma rstrip_verbatim: "\<not> suffix [c] s \<Longrightarrow> rstrip s [c] = s"
proof -
  assume a: "\<not> suffix [c] s"
  obtain n where n: "s = rstrip s [c] @ replicate n c" using rstrip_decomp by blast
  show ?thesis
  proof (cases n)
    case 0
    with n show ?thesis by simp
  next
    case (Suc m)
    have "replicate (Suc m) c = replicate m c @ [c]" by (simp add: replicate_append_same)
    with n Suc have "s = (rstrip s [c] @ replicate m c) @ [c]" by simp
    then have "suffix [c] s" unfolding suffix_def by blast
    with a show ?thesis by simp
  qed
qed

section \<open>Facts about the script\<close>

lemma parse_replacements_world:
  "parse_replacements args acc w = (r, w') \<Longrightarrow> files w' = files w \<and> writable w' = writable w"
  by (induction args arbitrary: acc w)
     (auto simp: read_text_def print_err_def Let_def
           split: prod.splits if_splits option.splits sum.splits)

lemma main_returns:
  assumes "main argv w = (Inr u, w')"
  shows "\<exists>rs w1 html. 3 \<le> length argv
           \<and> parse_replacements (drop 3 argv) [] w = (Inr rs, w1)
           \<and> files w (argv ! 1) = Some html \<and> writable w (argv ! 2)
           \<and> files w' = (files w)(argv ! 2 \<mapsto> substitute rs html)
           \<and> stderr w' = stderr w1
           \<and> trace w' = trace w1 @ [Read (argv ! 1), Write (argv ! 2)]"
proof -
  from assms have len: "3 \<le> length argv"
    by (auto simp: main_def split: if_splits list.splits)
  obtain r1 w1 where p: "parse_replacements (drop 3 argv) [] w = (r1, w1)" by fastforce
  from parse_replacements_world [OF p] have fw: "files w1 = files w" "writable w1 = writable w"
    by simp_all
  from assms len p obtain rs where r1: "r1 = Inr rs"
    by (cases r1) (auto simp: main_def)
  from assms len p r1 fw show ?thesis
    by (auto simp: main_def read_text_def write_text_def Let_def split: option.splits if_splits)
qed

section \<open>Values read from files (C1)\<close>

text \<open>
  C1, as stated: the value of \<open>KEY=@path\<close> is the file's contents with exactly one
  trailing newline stripped, so that contents ending in several newlines keep all but
  one. The script calls \<^verbatim>\<open>rstrip("\n")\<close>, which strips every trailing newline: for a
  file that holds \<open>a\<close> and two newlines the value is \<open>a\<close>, not \<open>a\<close> and one newline.
\<close>

theorem file_value_one_newline_counterexample:
  "fst (parse_replacements [''KEY=@f''] []
          (world_of [(''f'', [CHR ''a'', CHR 0x0A, CHR 0x0A])])) = Inr [(''KEY'', ''a'')]
   \<and> ''a'' \<noteq> [CHR ''a'', CHR 0x0A]"
  by (simp add: world_of_def read_text_def startswith_def rstrip_def)

text \<open>
  C1, amended: for an argument \<open>KEY=@path\<close> whose file can be read, the loop stores
  under \<open>KEY\<close> the file's contents with all trailing newlines stripped. The contents are
  that value followed by newlines only, the value does not end in a newline, and
  contents that do not end in a newline are used verbatim.
\<close>

theorem file_value_strips_trailing_newlines:
  assumes "key \<noteq> []" and "CHR ''='' \<notin> set key" and "files w path = Some contents"
  shows "parse_replacements ((key @ ''=@'' @ path) # args) rs w
           = parse_replacements args (AList.update key (rstrip contents [CHR 0x0A]) rs)
               (w\<lparr>trace := trace w @ [Read path]\<rparr>)
         \<and> (\<exists>n. contents = rstrip contents [CHR 0x0A] @ replicate n (CHR 0x0A))
         \<and> \<not> suffix [CHR 0x0A] (rstrip contents [CHR 0x0A])
         \<and> (\<not> suffix [CHR 0x0A] contents \<longrightarrow> rstrip contents [CHR 0x0A] = contents)"
proof -
  have "partition_str (key @ ''=@'' @ path) ''='' = (key, ''='', ''@'' @ path)"
    using partition_str_found [OF assms(2), of "''@'' @ path"] by simp
  with assms(1,3) show ?thesis
    using rstrip_decomp [of contents "CHR 0x0A"] rstrip_no_suffix [of "CHR 0x0A" contents]
      rstrip_verbatim [of "CHR 0x0A" contents]
    by (simp add: startswith_def read_text_def)
qed

theorem file_value_strips_trailing_newlines_witness:
  "''A'' \<noteq> [] \<and> CHR ''='' \<notin> set ''A''
   \<and> files (world_of [(''f'', ''line1'' @ [CHR 0x0A] @ ''line2'' @ [CHR 0x0A])]) ''f''
       = Some (''line1'' @ [CHR 0x0A] @ ''line2'' @ [CHR 0x0A])
   \<and> fst (parse_replacements [''A=@f''] []
            (world_of [(''f'', ''line1'' @ [CHR 0x0A] @ ''line2'' @ [CHR 0x0A])]))
       = Inr [(''A'', ''line1'' @ [CHR 0x0A] @ ''line2'')]"
  using file_value_strips_trailing_newlines
    [of "''A''" "world_of [(''f'', ''line1'' @ [CHR 0x0A] @ ''line2'' @ [CHR 0x0A])]" "''f''"
        "''line1'' @ [CHR 0x0A] @ ''line2'' @ [CHR 0x0A]" "[]" "[]"]
  by (simp add: world_of_def rstrip_def)

section \<open>Texts without tokens (C5)\<close>

text \<open>
  C5: when the input text contains no substring of the form \<open>{{...}}\<close>, the substitution
  pass returns it as it is, whatever the replacements; so a run of the script that
  returns has written the input text to the output file.
\<close>

theorem no_token_output_equals_input:
  assumes "\<not> (\<exists>a x b. html = a @ ''{{'' @ x @ ''}}'' @ b)"
  shows "substitute rs html = html
         \<and> (main argv w = (Inr (), w') \<and> files w (argv ! 1) = Some html
              \<longrightarrow> files w' (argv ! 2) = Some html)"
proof -
  have "files w' (argv ! 2) = Some html"
    if "main argv w = (Inr (), w')" and "files w (argv ! 1) = Some html"
  proof -
    from main_returns [OF that(1)] that(2) obtain rs'
      where "files w' = (files w)(argv ! 2 \<mapsto> substitute rs' html)" by auto
    with substitute_no_token [OF assms] show ?thesis by simp
  qed
  with substitute_no_token [OF assms] show ?thesis by blast
qed

theorem no_token_output_equals_input_witness:
  "\<not> (\<exists>a x b. ''a {b} }} c'' = a @ ''{{'' @ x @ ''}}'' @ b)
   \<and> substitute [(''b'', ''X'')] ''a {b} }} c'' = ''a {b} }} c''
   \<and> fst (main [''render-template.py'', ''in'', ''out'', ''b=X'']
            (world_of [(''in'', ''a {b} }} c'')])) = Inr ()
   \<and> files (snd (main [''render-template.py'', ''in'', ''out'', ''b=X'']
                   (world_of [(''in'', ''a {b} }} c'')]))) ''out'' = Some ''a {b} }} c''"
proof -
  let ?w = "world_of [(''in'', ''a {b} }} c'')]"
  let ?argv = "[''render-template.py'', ''in'', ''out'', ''b=X'']"
  have h: "\<not> (\<exists>a x b. ''a {b} }} c'' = a @ ''{{'' @ x @ ''}}'' @ b)"
    unfolding has_token_iff [symmetric] by code_simp
  have r: "fst (main ?argv ?w) = Inr ()" by code_simp
  then have m: "main ?argv ?w = (Inr (), snd (main ?argv ?w))" by (metis prod.collapse)
  have f: "files ?w (?argv ! 1) = Some ''a {b} }} c''" by (simp add: world_of_def)
  from no_token_output_equals_input [OF h, of "[(''b'', ''X'')]" ?argv ?w "snd (main ?argv ?w)"] m f
  have "substitute [(''b'', ''X'')] ''a {b} }} c'' = ''a {b} }} c''"
    and "files (snd (main ?argv ?w)) (?argv ! 2) = Some ''a {b} }} c''" by blast+
  with h r show ?thesis by simp
qed

section \<open>Facts about the argument loop\<close>

lemma value_files_simps [simp]:
  "value_files [] = []"
  "value_files (a # as) = (case value_file a of None \<Rightarrow> value_files as | Some p \<Rightarrow> p # value_files as)"
  by (simp_all add: value_files_def map_filter_simps split: option.splits)

lemma not_malformed_partition:
  assumes "\<not> malformed arg"
  shows "\<exists>key value. partition_str arg ''='' = (key, ''='', value) \<and> key \<noteq> []
           \<and> CHR ''='' \<notin> set key \<and> arg = key @ ''='' @ value"
proof -
  obtain k s v where p: "partition_str arg ''='' = (k, s, v)" by (cases "partition_str arg ''=''")
  from partition_str_cases [OF p] assms
  have *: "s = ''=''" "arg = k @ ''='' @ v" "CHR ''='' \<notin> set k"
    by (auto simp: malformed_def)
  with assms have "k \<noteq> []" by (auto simp: malformed_def)
  with p * show ?thesis by blast
qed

lemma malformed_partition:
  assumes "malformed arg" and "partition_str arg ''='' = (k, s, v)"
  shows "k = [] \<or> s = []"
proof -
  from partition_str_cases [OF assms(2)] assms(1) show ?thesis
    by (cases k) (auto simp: malformed_def)
qed

lemma parse_replacements_malformed:
  "malformed arg \<Longrightarrow>
   parse_replacements (arg # args) acc w = (Inl (SystemExit 1), print_err (Invalid_argument arg) w)"
  using malformed_partition [of arg] by (auto split: prod.splits)

lemma parse_replacements_append:
  "parse_replacements (xs @ ys) acc w =
     (case parse_replacements xs acc w of
        (Inl e, w') \<Rightarrow> (Inl e, w')
      | (Inr acc', w') \<Rightarrow> parse_replacements ys acc' w')"
  by (induction xs arbitrary: acc w) (auto split: prod.splits sum.splits)

lemma parse_replacements_step:
  assumes "partition_str arg ''='' = (key, ''='', value)" and "key \<noteq> []"
  shows "parse_replacements (arg # args) acc w =
     (case resolved_value w value of
        None \<Rightarrow> (Inl (OSError (drop 1 value)), w\<lparr>trace := trace w @ [Read (drop 1 value)]\<rparr>)
      | Some v \<Rightarrow> parse_replacements args (AList.update key v acc)
          (if startswith value ''@'' then w\<lparr>trace := trace w @ [Read (drop 1 value)]\<rparr> else w))"
  using assms by (auto simp: resolved_value_def read_text_def Let_def split: option.splits)

lemma parse_replacements_trace:
  "parse_replacements args acc w = (r, w') \<Longrightarrow>
     \<exists>m\<le>length args. trace w' = trace w @ map Read (value_files (take m args))
        \<and> (\<forall>a\<in>set (take m args). \<not> malformed a)
        \<and> ((\<exists>rs. r = Inr rs) \<longrightarrow> m = length args)"
proof (induction args arbitrary: acc w)
  case Nil
  then show ?case by auto
next
  case (Cons arg args)
  show ?case
  proof (cases "malformed arg")
    case True
    from Cons.prems have "trace w' = trace w" "\<not> (\<exists>rs. r = Inr rs)"
      unfolding parse_replacements_malformed [OF True] by (auto simp: print_err_def)
    then have "trace w' = trace w @ map Read (value_files (take 0 (arg # args)))
        \<and> (\<forall>a\<in>set (take 0 (arg # args)). \<not> malformed a)
        \<and> ((\<exists>rs. r = Inr rs) \<longrightarrow> 0 = length (arg # args))" by simp
    then show ?thesis by blast
  next
    case False
    from not_malformed_partition [OF False] obtain key val
      where p: "partition_str arg ''='' = (key, ''='', val)" "key \<noteq> []" by blast
    show ?thesis
    proof (cases "resolved_value w val")
      case None
      then have at: "startswith val ''@''" by (auto simp: resolved_value_def split: if_splits)
      with p have vf: "value_file arg = Some (drop 1 val)" by (simp add: value_file_def)
      from Cons.prems have "trace w' = trace w @ [Read (drop 1 val)]" "\<not> (\<exists>rs. r = Inr rs)"
        unfolding parse_replacements_step [OF p] None by auto
      with vf False have "trace w' = trace w @ map Read (value_files (take 1 (arg # args)))
        \<and> (\<forall>a\<in>set (take 1 (arg # args)). \<not> malformed a)
        \<and> ((\<exists>rs. r = Inr rs) \<longrightarrow> 1 = length (arg # args))" by simp
      moreover have "1 \<le> length (arg # args)" by simp
      ultimately show ?thesis by blast
    next
      case (Some v)
      define w1 where "w1 = (if startswith val ''@'' then w\<lparr>trace := trace w @ [Read (drop 1 val)]\<rparr> else w)"
      from Cons.prems have rec: "parse_replacements args (AList.update key v acc) w1 = (r, w')"
        unfolding parse_replacements_step [OF p] Some w1_def by simp
      from Cons.IH [OF rec] obtain m where m: "m \<le> length args"
        "trace w' = trace w1 @ map Read (value_files (take m args))"
        "\<forall>a\<in>set (take m args). \<not> malformed a"
        "(\<exists>rs. r = Inr rs) \<longrightarrow> m = length args" by blast
      have "trace w1 @ map Read (value_files (take m args))
              = trace w @ map Read (value_files (take (Suc m) (arg # args)))"
        using p by (auto simp: w1_def value_file_def)
      with m False have "Suc m \<le> length (arg # args)"
        "trace w' = trace w @ map Read (value_files (take (Suc m) (arg # args)))"
        "\<forall>a\<in>set (take (Suc m) (arg # args)). \<not> malformed a"
        "(\<exists>rs. r = Inr rs) \<longrightarrow> Suc m = length (arg # args)" by simp_all
      then show ?thesis by blast
    qed
  qed
qed

lemma parse_replacements_stderr:
  "parse_replacements args acc w = (r, w') \<Longrightarrow>
     (case r of Inr rs \<Rightarrow> stderr w' = stderr w \<and> (\<forall>a\<in>set args. \<not> malformed a)
      | Inl (SystemExit n) \<Rightarrow> n = 1 \<and> (\<exists>a\<in>set args. malformed a \<and> stderr w' = stderr w @ [Invalid_argument a])
      | Inl e \<Rightarrow> stderr w' = stderr w)"
proof (induction args arbitrary: acc w)
  case Nil
  then show ?case by auto
next
  case (Cons arg args)
  show ?case
  proof (cases "malformed arg")
    case True
    from Cons.prems True show ?thesis
      unfolding parse_replacements_malformed [OF True] by (auto simp: print_err_def)
  next
    case False
    from not_malformed_partition [OF False] obtain key val
      where p: "partition_str arg ''='' = (key, ''='', val)" "key \<noteq> []" by blast
    show ?thesis
    proof (cases "resolved_value w val")
      case None
      from Cons.prems show ?thesis unfolding parse_replacements_step [OF p] None by auto
    next
      case (Some v)
      define w1 where "w1 = (if startswith val ''@'' then w\<lparr>trace := trace w @ [Read (drop 1 val)]\<rparr> else w)"
      from Cons.prems have rec: "parse_replacements args (AList.update key v acc) w1 = (r, w')"
        unfolding parse_replacements_step [OF p] Some w1_def by simp
      have "stderr w1 = stderr w" by (simp add: w1_def)
      with Cons.IH [OF rec] False show ?thesis
        by (auto split: sum.splits stop.splits)
    qed
  qed
qed

lemma parse_replacements_Cons_Inr:
  assumes "parse_replacements (arg # args) acc w = (Inr rs, w')"
  shows "\<exists>key val v w1. partition_str arg ''='' = (key, ''='', val) \<and> key \<noteq> []
           \<and> CHR ''='' \<notin> set key \<and> arg = key @ ''='' @ val
           \<and> resolved_value w val = Some v \<and> files w1 = files w
           \<and> parse_replacements args (AList.update key v acc) w1 = (Inr rs, w')"
proof -
  have nm: "\<not> malformed arg"
  proof
    assume "malformed arg"
    from assms show False unfolding parse_replacements_malformed [OF \<open>malformed arg\<close>] by simp
  qed
  from not_malformed_partition [OF nm] obtain key val
    where p: "partition_str arg ''='' = (key, ''='', val)" "key \<noteq> []"
      and q: "CHR ''='' \<notin> set key" "arg = key @ ''='' @ val" by blast
  from assms obtain v where v: "resolved_value w val = Some v"
    unfolding parse_replacements_step [OF p] by (cases "resolved_value w val") auto
  define w1 where "w1 = (if startswith val ''@'' then w\<lparr>trace := trace w @ [Read (drop 1 val)]\<rparr> else w)"
  from assms have "parse_replacements args (AList.update key v acc) w1 = (Inr rs, w')"
    unfolding parse_replacements_step [OF p] v w1_def by simp
  moreover have "files w1 = files w" by (simp add: w1_def)
  ultimately show ?thesis using p q v by blast
qed

lemma parse_replacements_distinct:
  "parse_replacements args acc w = (Inr rs, w') \<Longrightarrow> distinct (map fst acc) \<Longrightarrow>
   distinct (map fst rs)"
proof (induction args arbitrary: acc w)
  case Nil
  then show ?case by simp
next
  case (Cons arg args)
  from parse_replacements_Cons_Inr [OF Cons.prems(1)] obtain key v w1
    where "parse_replacements args (AList.update key v acc) w1 = (Inr rs, w')" by blast
  moreover from Cons.prems(2) have "distinct (map fst (AList.update key v acc))"
    by (rule distinct_update)
  ultimately show ?case by (rule Cons.IH)
qed

lemma parse_replacements_other_keys:
  "parse_replacements args acc w = (Inr rs, w') \<Longrightarrow> \<forall>a\<in>set args. arg_key a \<noteq> key \<Longrightarrow>
   map_of rs key = map_of acc key"
proof (induction args arbitrary: acc w)
  case Nil
  then show ?case by simp
next
  case (Cons arg args)
  from parse_replacements_Cons_Inr [OF Cons.prems(1)] obtain k val v w1
    where p: "partition_str arg ''='' = (k, ''='', val)"
      and rec: "parse_replacements args (AList.update k v acc) w1 = (Inr rs, w')" by blast
  from p Cons.prems(2) have "k \<noteq> key" by (auto simp: arg_key_def)
  moreover from Cons.prems(2) have "\<forall>a\<in>set args. arg_key a \<noteq> key" by simp
  from Cons.IH [OF rec this] have "map_of rs key = map_of (AList.update k v acc) key" .
  ultimately show ?case by (simp add: update_conv')
qed

section \<open>Repeated keys (C7)\<close>

lemma parse_replacements_last_value:
  assumes "parse_replacements (pre @ (key @ ''='' @ raw) # post) [] w = (Inr rs, w')"
    and "CHR ''='' \<notin> set key"
    and "\<forall>a\<in>set post. arg_key a \<noteq> key"
  shows "\<exists>rs1 rs2 v. rs = rs1 @ (key, v) # rs2 \<and> resolved_value w raw = Some v
            \<and> key \<notin> fst ` set rs1 \<and> key \<notin> fst ` set rs2"
proof -
  from assms(1) obtain acc1 w1
    where pre: "parse_replacements pre [] w = (Inr acc1, w1)"
      and rest: "parse_replacements ((key @ ''='' @ raw) # post) acc1 w1 = (Inr rs, w')"
    by (auto simp: parse_replacements_append split: prod.splits sum.splits)
  from parse_replacements_world [OF pre] have fw: "files w1 = files w" by simp
  from parse_replacements_Cons_Inr [OF rest] partition_str_found [OF assms(2), of raw]
  obtain v w2 where v: "resolved_value w1 raw = Some v"
    and post: "parse_replacements post (AList.update key v acc1) w2 = (Inr rs, w')" by auto
  from v have v': "resolved_value w raw = Some v" unfolding resolved_value_def fw .
  from parse_replacements_other_keys [OF post assms(3)]
  have m: "map_of rs key = Some v" by (simp add: update_conv')
  from assms(1) have d: "distinct (map fst rs)"
    by (rule parse_replacements_distinct) simp
  from m have "(key, v) \<in> set rs" by (rule map_of_SomeD)
  then obtain rs1 rs2 where s: "rs = rs1 @ (key, v) # rs2" by (auto dest: split_list)
  with d have "key \<notin> fst ` set rs1" "key \<notin> fst ` set rs2" by auto
  with s v' show ?thesis by blast
qed

text \<open>
  C7: when the script returns and \<open>key=raw\<close> is the last trailing argument with that key,
  the dict built by the loop holds the key once, with the resolved value of that last
  argument (\<open>raw\<close> itself, or the stripped contents of the file that \<open>raw\<close> names), and
  the text written to the output file is the input text after the passes of the keys
  before it in the dict, the one pass that replaces \<open>{{key}}\<close> by that value, and the
  passes of the keys behind it.
\<close>

theorem last_occurrence_wins:
  assumes "main (prog # input # output # pre @ (key @ ''='' @ raw) # post) w = (Inr (), w')"
    and "CHR ''='' \<notin> set key"
    and "\<forall>a\<in>set post. arg_key a \<noteq> key"
  shows "\<exists>rs1 rs2 v html w1.
           parse_replacements (pre @ (key @ ''='' @ raw) # post) [] w
             = (Inr (rs1 @ (key, v) # rs2), w1)
           \<and> resolved_value w raw = Some v
           \<and> key \<notin> fst ` set rs1 \<and> key \<notin> fst ` set rs2
           \<and> files w input = Some html
           \<and> files w' output
               = Some (substitute rs2 (replace_str (substitute rs1 html) (placeholder key) v))"
proof -
  from main_returns [OF assms(1)] obtain rs w1 html
    where p: "parse_replacements (pre @ (key @ ''='' @ raw) # post) [] w = (Inr rs, w1)"
      and i: "files w input = Some html"
      and o: "files w' = (files w)(output \<mapsto> substitute rs html)"
    by auto
  from parse_replacements_last_value [OF p assms(2,3)] obtain rs1 rs2 v
    where s: "rs = rs1 @ (key, v) # rs2" and v: "resolved_value w raw = Some v"
      and k: "key \<notin> fst ` set rs1" "key \<notin> fst ` set rs2" by blast
  from o s have "files w' output
      = Some (substitute rs2 (replace_str (substitute rs1 html) (placeholder key) v))"
    by simp
  with p s v k i show ?thesis by blast
qed

theorem last_occurrence_wins_witness:
  "fst (main [''render-template.py'', ''in'', ''out'', ''A=1'', ''A=3'', ''B=2'']
          (world_of [(''in'', ''{{A}}{{B}}'')])) = Inr ()
   \<and> CHR ''='' \<notin> set ''A'' \<and> arg_key ''B=2'' \<noteq> ''A''
   \<and> fst (parse_replacements [''A=1'', ''A=3'', ''B=2''] [] (world_of [(''in'', ''{{A}}{{B}}'')]))
       = Inr ([] @ (''A'', ''3'') # [(''B'', ''2'')])
   \<and> resolved_value (world_of [(''in'', ''{{A}}{{B}}'')]) ''3'' = Some ''3''
   \<and> files (snd (main [''render-template.py'', ''in'', ''out'', ''A=1'', ''A=3'', ''B=2'']
                   (world_of [(''in'', ''{{A}}{{B}}'')]))) ''out'' = Some ''32''"
proof -
  let ?w = "world_of [(''in'', ''{{A}}{{B}}'')]"
  let ?argv = "[''render-template.py'', ''in'', ''out'', ''A=1'', ''A=3'', ''B=2'']"
  have r: "fst (main ?argv ?w) = Inr ()" by code_simp
  then have "main ?argv ?w = (Inr (), snd (main ?argv ?w))" by (metis prod.collapse)
  then have m: "main (''render-template.py'' # ''in'' # ''out''
                      # [''A=1''] @ (''A'' @ ''='' @ ''3'') # [''B=2'']) ?w
                  = (Inr (), snd (main ?argv ?w))" by simp
  have k: "CHR ''='' \<notin> set ''A''" by simp
  have o: "\<forall>a\<in>set [''B=2'']. arg_key a \<noteq> ''A''" by (simp add: arg_key_def)
  have pr: "fst (parse_replacements [''A=1'', ''A=3'', ''B=2''] [] ?w)
              = Inr ([] @ (''A'', ''3'') # [(''B'', ''2'')])" by code_simp
  have i: "files ?w ''in'' = Some ''{{A}}{{B}}''" by (simp add: world_of_def)
  from last_occurrence_wins [OF m k o] obtain rs1 rs2 v html w1
    where p: "parse_replacements ([''A=1''] @ (''A'' @ ''='' @ ''3'') # [''B=2'']) [] ?w
                = (Inr (rs1 @ (''A'', v) # rs2), w1)"
      and v: "resolved_value ?w ''3'' = Some v"
      and k1: "''A'' \<notin> fst ` set rs1"
      and h: "files ?w ''in'' = Some html"
      and f: "files (snd (main ?argv ?w)) ''out''
               = Some (substitute rs2 (replace_str (substitute rs1 html) (placeholder ''A'') v))"
    by blast
  from p pr have e: "rs1 @ (''A'', v) # rs2 = [(''A'', ''3''), (''B'', ''2'')]" by simp
  with k1 have "rs1 = []" by (cases rs1) auto
  with e have "v = ''3''" "rs2 = [(''B'', ''2'')]" by simp_all
  moreover from h i have "html = ''{{A}}{{B}}''" by simp
  moreover have "substitute [(''B'', ''2'')]
      (replace_str (substitute [] ''{{A}}{{B}}'') (placeholder ''A'') ''3'') = ''32''" by code_simp
  ultimately have "files (snd (main ?argv ?w)) ''out'' = Some ''32''"
    and "resolved_value ?w ''3'' = Some ''3''"
    using f v \<open>rs1 = []\<close> by simp_all
  with r k o pr show ?thesis by simp
qed

section \<open>Too few arguments, and no trailing arguments (C8)\<close>

text \<open>
  C8: with fewer than two arguments after the program name, \<open>main\<close> prints the usage
  message to the error stream and exits with status 1, touching no file. With exactly
  the input path and the output path, a readable input and a writable output, it reads
  the input, writes the same text to the output and returns (status 0).
\<close>

theorem usage_error_and_plain_copy:
  "(length args < 2 \<longrightarrow>
      main (prog # args) w = (Inl (SystemExit 1), w\<lparr>stderr := stderr w @ [Usage prog]\<rparr>)
      \<and> exit_status (fst (main (prog # args) w)) = 1)
   \<and> (files w input = Some html \<and> writable w output \<longrightarrow>
        main [prog, input, output] w
          = (Inr (), w\<lparr>files := (files w)(output \<mapsto> html),
                       trace := trace w @ [Read input, Write output]\<rparr>)
        \<and> exit_status (fst (main [prog, input, output] w)) = 0)"
  by (simp add: main_def print_err_def read_text_def write_text_def)

theorem usage_error_and_plain_copy_witness:
  "length [''in''] < 2
   \<and> main [''render-template.py'', ''in''] (world_of [])
       = (Inl (SystemExit 1), (world_of [])\<lparr>stderr := [Usage ''render-template.py'']\<rparr>)
   \<and> files (world_of [(''in'', ''Hello {{NAME}}'')]) ''in'' = Some ''Hello {{NAME}}''
   \<and> writable (world_of [(''in'', ''Hello {{NAME}}'')]) ''out''
   \<and> fst (main [''render-template.py'', ''in'', ''out''] (world_of [(''in'', ''Hello {{NAME}}'')]))
       = Inr ()
   \<and> files (snd (main [''render-template.py'', ''in'', ''out'']
                   (world_of [(''in'', ''Hello {{NAME}}'')]))) ''out'' = Some ''Hello {{NAME}}''"
  using usage_error_and_plain_copy [of "[''in'']" "''render-template.py''" "world_of []"]
    usage_error_and_plain_copy [of _ "''render-template.py''"
      "world_of [(''in'', ''Hello {{NAME}}'')]" "''in''" "''Hello {{NAME}}''" "''out''"]
  by (simp add: world_of_def)

section \<open>Malformed trailing arguments (C9)\<close>

lemma parse_replacements_good:
  "\<forall>a\<in>set good. \<not> malformed a \<and> (\<forall>p. value_file a = Some p \<longrightarrow> files w p \<noteq> None) \<Longrightarrow>
   \<exists>acc' w1. parse_replacements good acc w = (Inr acc', w1) \<and> stderr w1 = stderr w"
proof (induction good arbitrary: acc w)
  case Nil
  then show ?case by simp
next
  case (Cons arg good)
  from Cons.prems have nm: "\<not> malformed arg" by simp
  from not_malformed_partition [OF nm] obtain key val
    where p: "partition_str arg ''='' = (key, ''='', val)" "key \<noteq> []" by blast
  have "\<exists>v. resolved_value w val = Some v"
  proof (cases "startswith val ''@''")
    case True
    with p have "value_file arg = Some (drop 1 val)" by (simp add: value_file_def)
    with Cons.prems have "files w (drop 1 val) \<noteq> None" by simp
    with True show ?thesis by (auto simp: resolved_value_def)
  next
    case False
    then show ?thesis by (simp add: resolved_value_def)
  qed
  then obtain v where v: "resolved_value w val = Some v" ..
  define w1 where "w1 = (if startswith val ''@'' then w\<lparr>trace := trace w @ [Read (drop 1 val)]\<rparr> else w)"
  have w1: "files w1 = files w" "stderr w1 = stderr w" by (simp_all add: w1_def)
  from Cons.prems w1(1)
  have "\<forall>a\<in>set good. \<not> malformed a \<and> (\<forall>p. value_file a = Some p \<longrightarrow> files w1 p \<noteq> None)"
    by simp
  from Cons.IH [OF this, of "AList.update key v acc"] w1(2) show ?case
    unfolding parse_replacements_step [OF p] v w1_def by simp
qed

text \<open>
  C9, amended: when the trailing arguments before the first malformed one are well formed
  and every file that their values name can be read, the script reports that first
  malformed argument as an invalid argument on the error stream and exits with
  status 1, leaving the files as they were. Every argument that is not malformed splits at
  its first \<open>=\<close> into a non-empty key without \<open>=\<close> and a value, which may be empty.
\<close>

theorem malformed_argument_rejected:
  assumes "\<forall>a\<in>set good. \<not> malformed a \<and> (\<forall>p. value_file a = Some p \<longrightarrow> files w p \<noteq> None)"
    and "malformed bad"
  shows "(\<exists>w'. main (prog # input # output # good @ bad # rest) w = (Inl (SystemExit 1), w')
               \<and> stderr w' = stderr w @ [Invalid_argument bad] \<and> files w' = files w)
         \<and> exit_status (fst (main (prog # input # output # good @ bad # rest) w)) = 1
         \<and> (\<not> malformed arg \<longrightarrow>
              (\<exists>key value. partition_str arg ''='' = (key, ''='', value) \<and> key \<noteq> []
                 \<and> CHR ''='' \<notin> set key \<and> arg = key @ ''='' @ value))"
proof -
  from parse_replacements_good [OF assms(1), of "[]"] obtain acc' w1
    where g: "parse_replacements good [] w = (Inr acc', w1)" and e: "stderr w1 = stderr w"
    by blast
  from parse_replacements_world [OF g] have f: "files w1 = files w" by simp
  have "parse_replacements (good @ bad # rest) [] w
          = (Inl (SystemExit 1), print_err (Invalid_argument bad) w1)"
    unfolding parse_replacements_append g using parse_replacements_malformed [OF assms(2)]
    by simp
  then have m: "main (prog # input # output # good @ bad # rest) w
          = (Inl (SystemExit 1), print_err (Invalid_argument bad) w1)"
    by (simp add: main_def)
  from e f have "stderr (print_err (Invalid_argument bad) w1) = stderr w @ [Invalid_argument bad]"
    "files (print_err (Invalid_argument bad) w1) = files w"
    by (simp_all add: print_err_def)
  with m not_malformed_partition [of arg] show ?thesis by simp
qed

theorem malformed_argument_rejected_witness:
  "malformed ''FOO'' \<and> malformed ''=bar'' \<and> \<not> malformed ''A=@f'' \<and> \<not> malformed ''B=''
   \<and> value_file ''A=@f'' = Some ''f'' \<and> files (world_of [(''f'', ''x'')]) ''f'' \<noteq> None
   \<and> main [''render-template.py'', ''in'', ''out'', ''A=@f'', ''FOO'', ''=bar'']
        (world_of [(''f'', ''x'')])
      = (Inl (SystemExit 1),
         (world_of [(''f'', ''x'')])\<lparr>stderr := [Invalid_argument ''FOO''], trace := [Read ''f'']\<rparr>)
   \<and> partition_str ''B='' ''='' = (''B'', ''='', [])"
proof -
  let ?w = "world_of [(''f'', ''x'')]"
  have b: "malformed ''FOO''" "malformed ''=bar''" by (simp_all add: malformed_def)
  have g: "\<not> malformed ''A=@f''" "\<not> malformed ''B=''" by (simp_all add: malformed_def)
  have v: "value_file ''A=@f'' = Some ''f''" by (simp add: value_file_def startswith_def)
  have f: "files ?w ''f'' \<noteq> None" by (simp add: world_of_def)
  from g(1) v f
  have h: "\<forall>a\<in>set [''A=@f'']. \<not> malformed a \<and> (\<forall>p. value_file a = Some p \<longrightarrow> files ?w p \<noteq> None)"
    by simp
  from malformed_argument_rejected [OF h b(1), of "''render-template.py''" "''in''" "''out''"
      "[''=bar'']" "''B=''"] g(2)
  have "fst (main [''render-template.py'', ''in'', ''out'', ''A=@f'', ''FOO'', ''=bar''] ?w)
          = Inl (SystemExit 1)"
    and p: "partition_str ''B='' ''='' = (''B'', ''='', [])" by auto
  moreover have "snd (main [''render-template.py'', ''in'', ''out'', ''A=@f'', ''FOO'', ''=bar''] ?w)
      = ?w\<lparr>stderr := [Invalid_argument ''FOO''], trace := [Read ''f'']\<rparr>"
    by (simp add: main_def world_of_def startswith_def read_text_def print_err_def rstrip_def)
  ultimately show ?thesis using b g v f by (simp add: prod_eq_iff)
qed

text \<open>
  C9, as stated: whenever any trailing argument is malformed, the script reports an
  invalid argument and exits through the validation path. The loop resolves each value
  before it looks at the next argument, so a value that names a missing file, in an
  argument before the malformed one, raises first: nothing is printed to the error
  stream by the script, and the malformed argument \<open>FOO\<close> is never examined.
\<close>

theorem malformed_argument_counterexample:
  "malformed ''FOO''
   \<and> main [''render-template.py'', ''in'', ''out'', ''A=@missing'', ''FOO''] (world_of [(''in'', ''x'')])
      = (Inl (OSError ''missing''), (world_of [(''in'', ''x'')])\<lparr>trace := [Read ''missing'']\<rparr>)
   \<and> stderr ((world_of [(''in'', ''x'')])\<lparr>trace := [Read ''missing'']\<rparr>) = []"
  by (simp add: malformed_def main_def world_of_def startswith_def read_text_def)

section \<open>Validation comes before the input and the output (C10)\<close>

text \<open>
  C10: when \<open>main\<close> leaves through \<^verbatim>\<open>sys.exit\<close>, the status is 1, the cause is too
  few arguments or a malformed trailing argument, no file has changed, and the only file
  accesses made are the reads of files named by the values of well-formed arguments at
  the head of the trailing arguments: the input has not been read by line 55 and the
  output has not been opened. When \<open>main\<close> returns, every trailing argument was well formed, and the input was
  read and the output written after the values of all trailing arguments were resolved,
  in that order. However \<open>main\<close> ends: either the loop over the trailing arguments has
  succeeded, or no file has changed and nothing but such reads has happened.
\<close>

theorem validation_failure_before_file_access:
  assumes "main argv w = (r, w')"
  shows "(\<forall>n. r = Inl (SystemExit n) \<longrightarrow>
            n = 1 \<and> files w' = files w
            \<and> (\<exists>m. trace w' = trace w @ map Read (value_files (take m (drop 3 argv)))
                   \<and> (\<forall>a\<in>set (take m (drop 3 argv)). \<not> malformed a))
            \<and> (length argv < 3 \<or> (\<exists>a\<in>set (drop 3 argv). malformed a)))
         \<and> (r = Inr () \<longrightarrow>
              (\<forall>a\<in>set (drop 3 argv). \<not> malformed a)
              \<and> trace w' = trace w @ map Read (value_files (drop 3 argv))
                              @ [Read (argv ! 1), Write (argv ! 2)])
         \<and> ((3 \<le> length argv \<and> (\<exists>rs w1. parse_replacements (drop 3 argv) [] w = (Inr rs, w1)))
              \<or> (files w' = files w
                   \<and> (\<exists>m. trace w' = trace w @ map Read (value_files (take m (drop 3 argv)))
                          \<and> (\<forall>a\<in>set (take m (drop 3 argv)). \<not> malformed a))))"
proof (cases "length argv < 3")
  case True
  with assms have "r = Inl IndexError \<and> w' = w \<or> (r = Inl (SystemExit 1) \<and> (\<exists>m. w' = print_err m w))"
    by (auto simp: main_def split: list.splits)
  then have "files w' = files w" "trace w' = trace w" "r \<noteq> Inr ()"
     "\<forall>n. r = Inl (SystemExit n) \<longrightarrow> n = 1"
    by (auto simp: print_err_def)
  moreover from this have "trace w' = trace w @ map Read (value_files (take 0 (drop 3 argv)))
      \<and> (\<forall>a\<in>set (take 0 (drop 3 argv)). \<not> malformed a)"
    by simp
  ultimately show ?thesis using True by blast
next
  case False
  obtain r1 w1 where p: "parse_replacements (drop 3 argv) [] w = (r1, w1)" by fastforce
  from parse_replacements_world [OF p] have fw: "files w1 = files w" "writable w1 = writable w"
    by simp_all
  from parse_replacements_trace [OF p] obtain m
    where m: "trace w1 = trace w @ map Read (value_files (take m (drop 3 argv)))"
      "\<forall>a\<in>set (take m (drop 3 argv)). \<not> malformed a"
      "(\<exists>rs. r1 = Inr rs) \<longrightarrow> m = length (drop 3 argv)" by blast
  note s = parse_replacements_stderr [OF p]
  show ?thesis
  proof (cases r1)
    case (Inl e)
    with assms False p have rw: "r = Inl e" "w' = w1" by (auto simp: main_def)
    with fw have 1: "files w' = files w" "r \<noteq> Inr ()" by simp_all
    from m(1,2) rw have 2: "\<exists>m. trace w' = trace w @ map Read (value_files (take m (drop 3 argv)))
        \<and> (\<forall>a\<in>set (take m (drop 3 argv)). \<not> malformed a)"
      by blast
    from s Inl rw have 3: "\<forall>n. r = Inl (SystemExit n) \<longrightarrow> n = 1 \<and> (\<exists>a\<in>set (drop 3 argv). malformed a)"
      by auto
    from 1 2 3 show ?thesis by blast
  next
    case (Inr rs)
    with p False have ok: "3 \<le> length argv \<and> (\<exists>rs w1. parse_replacements (drop 3 argv) [] w = (Inr rs, w1))"
      by auto
    from Inr m have tr: "trace w1 = trace w @ map Read (value_files (drop 3 argv))" by simp
    from s Inr have nm: "\<forall>a\<in>set (drop 3 argv). \<not> malformed a" by simp
    from assms False p Inr fw
    have "(\<exists>e. r = Inl (OSError e))
          \<or> (r = Inr () \<and> trace w' = trace w1 @ [Read (argv ! 1), Write (argv ! 2)])"
      by (auto simp: main_def read_text_def write_text_def Let_def split: option.splits if_splits)
    with tr nm ok show ?thesis by auto
  qed
qed

theorem validation_failure_before_file_access_witness:
  "main [''render-template.py'', ''in'', ''out'', ''A=@f'', ''FOO'']
       (world_of [(''in'', ''{{A}}''), (''f'', ''v'')])
     = (Inl (SystemExit 1),
        (world_of [(''in'', ''{{A}}''), (''f'', ''v'')])
          \<lparr>stderr := [Invalid_argument ''FOO''], trace := [Read ''f'']\<rparr>)
   \<and> malformed ''FOO''
   \<and> fst (main [''render-template.py'', ''in'', ''out'', ''A=@f'']
            (world_of [(''in'', ''{{A}}''), (''f'', ''v'')])) = Inr ()
   \<and> trace (snd (main [''render-template.py'', ''in'', ''out'', ''A=@f'']
                   (world_of [(''in'', ''{{A}}''), (''f'', ''v'')])))
       = [Read ''f'', Read ''in'', Write ''out'']
   \<and> files (snd (main [''render-template.py'', ''in'', ''out'', ''A=@f'']
                   (world_of [(''in'', ''{{A}}''), (''f'', ''v'')]))) ''out'' = Some ''v''"
proof -
  let ?w = "world_of [(''in'', ''{{A}}''), (''f'', ''v'')]"
  let ?bad = "[''render-template.py'', ''in'', ''out'', ''A=@f'', ''FOO'']"
  let ?ok = "[''render-template.py'', ''in'', ''out'', ''A=@f'']"
  have m1: "main ?bad ?w
      = (Inl (SystemExit 1), ?w\<lparr>stderr := [Invalid_argument ''FOO''], trace := [Read ''f'']\<rparr>)"
    by (simp add: main_def world_of_def startswith_def read_text_def print_err_def rstrip_def)
  from validation_failure_before_file_access [OF m1]
  have b: "\<exists>a\<in>set (drop 3 ?bad). malformed a" by simp
  have vf: "value_file ''A=@f'' = Some ''f''" by (simp add: value_file_def startswith_def)
  have r: "fst (main ?ok ?w) = Inr ()" by code_simp
  then have m2: "main ?ok ?w = (Inr (), snd (main ?ok ?w))" by (metis prod.collapse)
  from validation_failure_before_file_access [OF m2] vf
  have t: "trace (snd (main ?ok ?w)) = [Read ''f'', Read ''in'', Write ''out'']"
    by (simp add: world_of_def)
  have f: "files (snd (main ?ok ?w)) ''out'' = Some ''v''" by code_simp
  from b have "malformed ''FOO''" by (simp add: malformed_def)
  with m1 r t f show ?thesis by simp
qed

section \<open>One pass of \<^verbatim>\<open>str.replace\<close> over a text\<close>

lemma replace_str_first:
  assumes "old \<noteq> []" and "\<not> sublist old (a @ butlast old)"
  shows "replace_str (a @ old @ b) old new = a @ new @ replace_str b old new"
proof -
  have "\<not> prefix old (drop i (a @ old @ b))" if "i < length a" for i
  proof
    assume pre: "prefix old (drop i (a @ old @ b))"
    define x where "x = drop i a"
    from that have x: "x \<noteq> []" by (simp add: x_def)
    from that have d: "drop i (a @ old @ b) = x @ old @ b" by (simp add: x_def)
    from assms(1) have "old = butlast old @ [last old]" by simp
    then have "x @ old @ b = (x @ butlast old) @ last old # b" by (metis append.assoc append_Cons append_Nil)
    then have "prefix (x @ butlast old) (x @ old @ b)" by (metis prefixI)
    moreover from x assms(1) have "length old \<le> length (x @ butlast old)"
      by (cases x) auto
    ultimately have "prefix old (x @ butlast old)"
      using pre d prefix_length_prefix by metis
    then have "sublist old (take i a @ x @ butlast old)"
      by (metis prefix_def sublist_appendI)
    then have "sublist old (a @ butlast old)" by (simp add: x_def flip: append.assoc)
    with assms(2) show False by simp
  qed
  with assms(1) have "replace_str (a @ old @ b) old new = a @ replace_str (old @ b) old new"
    by (rule replace_str_skip)
  with assms(1) show ?thesis by (simp add: replace_str_match)
qed

section \<open>Substitution on well-formed templates\<close>

lemma placeholder_open_brace:
  assumes "brace_free k" and "j < length (placeholder k)" and "placeholder k ! j = CHR ''{''"
  shows "j < 2"
proof (rule ccontr)
  assume "\<not> j < 2"
  then obtain i where j: "j = Suc (Suc i)" by (metis not_less_eq_eq numeral_2_eq_2 less_Suc_eq_le Suc_le_D)
  with assms(2) have "i < length (k @ ''}}'')" by simp
  then have "(k @ ''}}'') ! i \<in> set (k @ ''}}'')" by (rule nth_mem)
  moreover from j have "placeholder k ! j = (k @ ''}}'') ! i" by (simp add: placeholder_def)
  ultimately show False using assms(1,3) by (auto simp: brace_free_def)
qed

lemma prefix_nth: "prefix p s \<Longrightarrow> j < length p \<Longrightarrow> s ! j = p ! j"
  by (auto simp: prefix_def nth_append)

lemma placeholder_no_overlap:
  assumes "prefix (placeholder k) (a @ ''{{'' @ r)" and "brace_free k" and "a \<noteq> []"
  shows "length (placeholder k) \<le> length a"
proof (rule ccontr)
  assume "\<not> length (placeholder k) \<le> length a"
  then have lt: "length a < length (placeholder k)" by simp
  have "(a @ ''{{'' @ r) ! length a = CHR ''{''" by (simp add: nth_append)
  with prefix_nth [OF assms(1) lt] have "placeholder k ! length a = CHR ''{''" by simp
  from placeholder_open_brace [OF assms(2) lt this] assms(3) have la: "length a = 1"
    by (cases a) auto
  then have 2: "2 < length (placeholder k)" by simp
  from la have "(a @ ''{{'' @ r) ! 2 = CHR ''{''" by (cases a) (auto simp: nth_append)
  with prefix_nth [OF assms(1) 2] have "placeholder k ! 2 = CHR ''{''" by simp
  from placeholder_open_brace [OF assms(2) 2 this] show False by simp
qed

lemma placeholder_prefix_same:
  assumes "prefix (placeholder k) (placeholder k' @ r)" and "brace_free k" and "brace_free k'"
  shows "k = k'"
proof -
  have "prefix (k @ ''}}'') (k' @ ''}}'' @ r) \<Longrightarrow> brace_free k \<Longrightarrow> brace_free k' \<Longrightarrow> k = k'"
    for k k'
  proof (induction k arbitrary: k')
    case Nil
    then show ?case by (cases k') (auto simp: brace_free_def)
  next
    case (Cons c k)
    then show ?case by (cases k') (auto simp: brace_free_def)
  qed
  with assms show ?thesis by (simp add: placeholder_def)
qed

lemma placeholder_prefix_open: "prefix (placeholder k) z \<Longrightarrow> prefix ''{{'' z"
  by (auto simp: placeholder_def prefix_def)

lemma no_opening_Cons: "no_opening (c # s) \<Longrightarrow> no_opening s"
  by (auto simp: no_opening_def sublist_Cons_right suffix_Cons)

lemma no_opening_drop:
  "no_opening s \<Longrightarrow> i < length s \<Longrightarrow> \<not> prefix ''{{'' (drop i (s @ rest))"
proof (induction s arbitrary: i)
  case Nil
  then show ?case by simp
next
  case (Cons c s)
  show ?case
  proof (cases i)
    case 0
    show ?thesis
    proof
      assume "prefix ''{{'' (drop i ((c # s) @ rest))"
      with 0 have c: "c = CHR ''{''" and p: "prefix ''{'' (s @ rest)" by auto
      show False
      proof (cases s)
        case Nil
        with c Cons.prems(1) show False by (simp add: no_opening_def)
      next
        case (Cons d s')
        with p have "d = CHR ''{''" by simp
        with c Cons have "prefix ''{{'' (c # s)" by simp
        then have "sublist ''{{'' (c # s)" by (rule prefix_imp_sublist)
        with Cons.prems(1) show False by (simp add: no_opening_def)
      qed
    qed
  next
    case (Suc j)
    with Cons.prems(2) have "j < length s" by simp
    from Cons.IH [OF no_opening_Cons [OF Cons.prems(1)] this] Suc show ?thesis by simp
  qed
qed

lemma placeholder_inner_no_open:
  assumes "brace_free k" and "0 < i" and "i < length (placeholder k)"
  shows "\<not> prefix ''{{'' (drop i (placeholder k @ rest))"
proof
  let ?q = "placeholder k"
  assume p: "prefix ''{{'' (drop i (?q @ rest))"
  from assms(3) have d: "drop i (?q @ rest) = ?q ! i # drop (Suc i) (?q @ rest)"
    by (metis Cons_nth_drop_Suc length_append nth_append trans_less_add1)
  from p have 1: "?q ! i = CHR ''{''" and p': "prefix ''{'' (drop (Suc i) (?q @ rest))"
    unfolding d by auto
  from placeholder_open_brace [OF assms(1,3) 1] assms(2) have i: "i = 1" by simp
  then have "drop (Suc i) (?q @ rest) = k @ ''}}'' @ rest" by (simp add: placeholder_def)
  with p' assms(1) show False by (cases k) (auto simp: brace_free_def)
qed

lemma no_match_in_Lit:
  assumes "no_opening s" and "i < length s"
  shows "\<not> prefix (placeholder k) (drop i (s @ rest))"
  using no_opening_drop [OF assms] placeholder_prefix_open by blast

lemma no_match_in_other_Hole:
  assumes "brace_free k" and "brace_free k'" and "k \<noteq> k'" and "i < length (placeholder k')"
  shows "\<not> prefix (placeholder k) (drop i (placeholder k' @ rest))"
proof (cases i)
  case 0
  with placeholder_prefix_same [OF _ assms(1,2)] assms(3) show ?thesis by auto
next
  case (Suc j)
  with placeholder_inner_no_open [OF assms(2) _ assms(4)] show ?thesis
    using placeholder_prefix_open by blast
qed

lemma replace_str_Lit:
  "no_opening s \<Longrightarrow>
   replace_str (s @ rest) (placeholder k) v = s @ replace_str rest (placeholder k) v"
  by (rule replace_str_skip) (simp, rule no_match_in_Lit)

lemma replace_str_other_Hole:
  "brace_free k \<Longrightarrow> brace_free k' \<Longrightarrow> k \<noteq> k' \<Longrightarrow>
   replace_str (placeholder k' @ rest) (placeholder k) v
     = placeholder k' @ replace_str rest (placeholder k) v"
  by (rule replace_str_skip) (simp, rule no_match_in_other_Hole)

lemma sublist_skip:
  "(\<And>i. i < length a \<Longrightarrow> \<not> prefix p (drop i (a @ rest))) \<Longrightarrow> sublist p (a @ rest) \<Longrightarrow>
   sublist p rest"
proof (induction a)
  case Nil
  then show ?case by simp
next
  case (Cons c a)
  from Cons.prems(1) [of 0] have "\<not> prefix p (c # a @ rest)" by simp
  with Cons.prems(2) have s: "sublist p (a @ rest)" by (simp add: sublist_Cons_right)
  show ?case
  proof (rule Cons.IH [OF _ s])
    fix i assume "i < length a"
    then show "\<not> prefix p (drop i (a @ rest))" using Cons.prems(1) [of "Suc i"] by simp
  qed
qed

lemma template_text_simps [simp]:
  "template_text [] = []"
  "template_text (p # ps) = piece_text p @ template_text ps"
  by (simp_all add: template_text_def)

lemma replace_str_template_gen:
  assumes "brace_free k" and "\<forall>p\<in>set ps. well_formed_piece p"
    and "m k = Some v" and "\<forall>k'. k' \<noteq> k \<longrightarrow> m k' = None"
  shows "replace_str (template_text ps) (placeholder k) v = template_text (map (fill m) ps)"
  using assms(2)
proof (induction ps)
  case Nil
  then show ?case by (simp add: replace_str_Nil)
next
  case (Cons p ps)
  have IH: "replace_str (template_text ps) (placeholder k) v = template_text (map (fill m) ps)"
    by (rule Cons.IH) (use Cons.prems in simp)
  show ?case
  proof (cases p)
    case (Lit s)
    with Cons.prems have "no_opening s" by simp
    with IH Lit show ?thesis by (simp add: replace_str_Lit)
  next
    case (Hole k')
    with Cons.prems have bf: "brace_free k'" by simp
    show ?thesis
    proof (cases "k' = k")
      case True
      with IH Hole assms(3) show ?thesis by (simp add: replace_str_match)
    next
      case False
      then have "k \<noteq> k'" by simp
      from replace_str_other_Hole [OF assms(1) bf this] IH Hole False assms(4)
      show ?thesis by simp
    qed
  qed
qed

lemma replace_str_template:
  assumes "brace_free k" and "\<forall>p\<in>set ps. well_formed_piece p"
  shows "replace_str (template_text ps) (placeholder k) v
           = template_text (map (fill [k \<mapsto> v]) ps)"
  by (rule replace_str_template_gen [OF assms]) simp_all

lemma fill_fill:
  "fill m (fill [k \<mapsto> v] p) = fill (m(k \<mapsto> v)) p"
  by (cases p) auto

lemma well_formed_fill:
  "well_formed_piece p \<Longrightarrow> \<forall>v\<in>ran m. no_opening v \<Longrightarrow> well_formed_piece (fill m p)"
  by (cases p) (auto simp: ran_def split: option.splits)

lemma substitute_template:
  assumes "\<forall>(k, v)\<in>set rs. brace_free k \<and> no_opening v"
    and "\<forall>p\<in>set ps. well_formed_piece p"
  shows "substitute rs (template_text ps) = template_text (map (fill (map_of rs)) ps)"
  using assms
proof (induction rs arbitrary: ps)
  case Nil
  have "map (fill Map.empty) ps = ps"
    by (rule map_idI) (case_tac x, auto)
  then show ?case by simp
next
  case (Cons r rs)
  obtain k v where r: "r = (k, v)" by (cases r)
  with Cons.prems(1) have kv: "brace_free k" "no_opening v"
    and rs: "\<forall>(k, v)\<in>set rs. brace_free k \<and> no_opening v" by auto
  let ?ps = "map (fill [k \<mapsto> v]) ps"
  from kv(2) Cons.prems(2) have wf: "\<forall>p\<in>set ?ps. well_formed_piece p"
    by (auto intro!: well_formed_fill)
  have "substitute (r # rs) (template_text ps) = substitute rs (template_text ?ps)"
    using r replace_str_template [OF kv(1) Cons.prems(2)] by simp
  also have "\<dots> = template_text (map (fill (map_of rs)) ?ps)"
    by (rule Cons.IH [OF rs wf])
  also have "map (fill (map_of rs)) ?ps = map (fill (map_of (r # rs))) ps"
    by (simp add: r fill_fill)
  finally show ?case .
qed

lemma sublist_template:
  assumes "brace_free k"
  shows "\<forall>p\<in>set ps. well_formed_piece p \<Longrightarrow> sublist (placeholder k) (template_text ps) \<Longrightarrow>
         Hole k \<in> set ps"
proof (induction ps)
  case Nil
  then show ?case by simp
next
  case (Cons p ps)
  show ?case
  proof (cases "p = Hole k")
    case True
    then show ?thesis by simp
  next
    case False
    have "sublist (placeholder k) (template_text ps)"
    proof (cases p)
      case (Lit s)
      with Cons.prems(1) have "no_opening s" by simp
      from sublist_skip [of s "placeholder k" "template_text ps"] no_match_in_Lit [OF this]
        Cons.prems(2) Lit
      show ?thesis by simp
    next
      case (Hole k')
      with Cons.prems(1) False have "brace_free k'" "k \<noteq> k'" by auto
      from sublist_skip [of "placeholder k'" "placeholder k" "template_text ps"]
        no_match_in_other_Hole [OF assms this] Cons.prems(2) Hole
      show ?thesis by simp
    qed
    with Cons show ?thesis by simp
  qed
qed

section \<open>Every placeholder of a key is replaced (C4)\<close>

text \<open>
  C4, as stated: no occurrence of \<open>{{K}}\<close> remains in the output for a key \<open>K\<close>. A value
  may bring one in after the pass for \<open>K\<close> is over: with \<open>A=x\<close> and \<open>B={{A}}\<close>, in this
  order, the input \<open>{{A}} and {{B}}\<close> becomes \<open>x and {{A}}\<close>.
\<close>

theorem placeholder_remains_counterexample:
  "substitute [(''A'', ''x''), (''B'', ''{{A}}'')] ''{{A}} and {{B}}'' = ''x and {{A}}''
   \<and> sublist (placeholder ''A'') ''x and {{A}}''"
  by code_simp

text \<open>
  C4, amended: when the input is a well-formed template, the keys are brace free and no
  value contains \<open>{{\<close> or ends in \<open>{\<close>, the output is the template with every hole
  \<open>{{K}}\<close> of a key \<open>K\<close> filled with the value of \<open>K\<close> and everything else as it was, and
  no \<open>{{K}}\<close> of a key \<open>K\<close> occurs in the output.
\<close>

theorem keys_replaced_in_well_formed_template:
  assumes "\<forall>p\<in>set ps. well_formed_piece p"
    and "\<forall>(k, v)\<in>set rs. brace_free k \<and> no_opening v"
  shows "substitute rs (template_text ps) = template_text (map (fill (map_of rs)) ps)
         \<and> (\<forall>k\<in>fst ` set rs. \<not> sublist (placeholder k) (substitute rs (template_text ps)))"
proof -
  let ?ps = "map (fill (map_of rs)) ps"
  have eq: "substitute rs (template_text ps) = template_text ?ps"
    by (rule substitute_template [OF assms(2,1)])
  from assms(2) have "\<forall>v\<in>ran (map_of rs). no_opening v"
    by (auto simp: ran_def dest!: map_of_SomeD)
  with assms(1) have wf: "\<forall>p\<in>set ?ps. well_formed_piece p"
    by (auto intro!: well_formed_fill)
  have "\<not> sublist (placeholder k) (template_text ?ps)" if k: "k \<in> fst ` set rs" for k
  proof
    assume s: "sublist (placeholder k) (template_text ?ps)"
    from k assms(2) have "brace_free k" by auto
    from sublist_template [OF this wf s] obtain p where p: "fill (map_of rs) p = Hole k"
      by auto
    have "map_of rs k = None" using p by (cases p) (auto split: option.splits)
    with k show False by (simp add: map_of_eq_None_iff)
  qed
  with eq show ?thesis by simp
qed

theorem keys_replaced_in_well_formed_template_witness:
  "template_text [Lit ''Hello '', Hole ''NAME'', Lit '', visit '', Hole ''URL'']
     = ''Hello {{NAME}}, visit {{URL}}''
   \<and> well_formed_piece (Lit ''Hello '') \<and> well_formed_piece (Hole ''NAME'')
   \<and> well_formed_piece (Lit '', visit '') \<and> well_formed_piece (Hole ''URL'')
   \<and> brace_free ''NAME'' \<and> no_opening ''World''
   \<and> brace_free ''URL'' \<and> no_opening ''https://example.com''
   \<and> substitute [(''NAME'', ''World''), (''URL'', ''https://example.com'')]
         ''Hello {{NAME}}, visit {{URL}}'' = ''Hello World, visit https://example.com''
   \<and> \<not> sublist (placeholder ''NAME'') ''Hello World, visit https://example.com''
   \<and> \<not> sublist (placeholder ''URL'') ''Hello World, visit https://example.com''"
proof -
  let ?ps = "[Lit ''Hello '', Hole ''NAME'', Lit '', visit '', Hole ''URL'']"
  let ?rs = "[(''NAME'', ''World''), (''URL'', ''https://example.com'')]"
  have t: "template_text ?ps = ''Hello {{NAME}}, visit {{URL}}''"
    by (simp add: placeholder_def)
  have w: "well_formed_piece (Lit ''Hello '')" "well_formed_piece (Hole ''NAME'')"
    "well_formed_piece (Lit '', visit '')" "well_formed_piece (Hole ''URL'')"
    by code_simp+
  have r: "brace_free ''NAME''" "no_opening ''World''"
    "brace_free ''URL''" "no_opening ''https://example.com''"
    by code_simp+
  from w have 1: "\<forall>p\<in>set ?ps. well_formed_piece p" by simp
  from r have 2: "\<forall>(k, v)\<in>set ?rs. brace_free k \<and> no_opening v" by simp
  have e: "substitute ?rs ''Hello {{NAME}}, visit {{URL}}''
             = ''Hello World, visit https://example.com''"
    by code_simp
  from keys_replaced_in_well_formed_template [OF 1 2, unfolded t e]
  have "\<forall>k\<in>fst ` set ?rs. \<not> sublist (placeholder k) ''Hello World, visit https://example.com''"
    by (rule conjunct2)
  then have "\<not> sublist (placeholder ''NAME'') ''Hello World, visit https://example.com''"
    and "\<not> sublist (placeholder ''URL'') ''Hello World, visit https://example.com''"
    by simp_all
  with t w r e show ?thesis by simp
qed

section \<open>The order of the keys (C3)\<close>

text \<open>
  C3, as stated: for distinct keys the output does not depend on the order in which the
  pairs are applied. With the pairs \<open>A={{B}}\<close> and \<open>B=x\<close> the input \<open>{{A}}\<close> becomes
  \<open>x\<close> when \<open>A\<close> is applied first and \<open>{{B}}\<close> when \<open>B\<close> is applied first.
\<close>

theorem order_of_keys_counterexample:
  "substitute [(''A'', ''{{B}}''), (''B'', ''x'')] ''{{A}}'' = ''x''
   \<and> substitute [(''B'', ''x''), (''A'', ''{{B}}'')] ''{{A}}'' = ''{{B}}''
   \<and> distinct (map fst [(''A'', ''{{B}}''), (''B'', ''x'')])"
  by code_simp

text \<open>
  C3, amended: when the input is a well-formed template, the keys are distinct and brace
  free and no value contains \<open>{{\<close> or ends in \<open>{\<close>, every permutation of the pairs
  gives the same output.
\<close>

theorem order_irrelevant_for_well_formed_template:
  assumes "\<forall>p\<in>set ps. well_formed_piece p"
    and "\<forall>(k, v)\<in>set rs. brace_free k \<and> no_opening v"
    and "distinct (map fst rs)"
    and "mset rs' = mset rs"
  shows "substitute rs' (template_text ps) = substitute rs (template_text ps)"
proof -
  from assms(4) have set: "set rs' = set rs" by (rule mset_eq_setD)
  from assms(4) have "mset (map fst rs') = mset (map fst rs)" by (metis mset_map)
  with assms(3) have "distinct (map fst rs')" by (metis mset_eq_imp_distinct_iff)
  with assms(3) set have m: "map_of rs' = map_of rs" by (simp add: map_of_inject_set)
  from assms(2) set have "\<forall>(k, v)\<in>set rs'. brace_free k \<and> no_opening v" by simp
  from substitute_template [OF this assms(1)] substitute_template [OF assms(2,1)] m
  show ?thesis by simp
qed

theorem order_irrelevant_for_well_formed_template_witness:
  "well_formed_piece (Lit ''<'') \<and> well_formed_piece (Hole ''A'') \<and> well_formed_piece (Hole ''B'')
   \<and> brace_free ''A'' \<and> no_opening ''{b}'' \<and> brace_free ''B'' \<and> no_opening ''x''
   \<and> distinct (map fst [(''A'', ''{b}''), (''B'', ''x'')])
   \<and> mset [(''B'', ''x''), (''A'', ''{b}'')] = mset [(''A'', ''{b}''), (''B'', ''x'')]
   \<and> substitute [(''B'', ''x''), (''A'', ''{b}'')] (template_text [Lit ''<'', Hole ''A'', Hole ''B''])
       = substitute [(''A'', ''{b}''), (''B'', ''x'')] (template_text [Lit ''<'', Hole ''A'', Hole ''B''])
   \<and> substitute [(''A'', ''{b}''), (''B'', ''x'')] ''<{{A}}{{B}}'' = ''<{b}x''"
proof -
  let ?ps = "[Lit ''<'', Hole ''A'', Hole ''B'']"
  let ?rs = "[(''A'', ''{b}''), (''B'', ''x'')]"
  let ?rs' = "[(''B'', ''x''), (''A'', ''{b}'')]"
  have w: "well_formed_piece (Lit ''<'')" "well_formed_piece (Hole ''A'')"
    "well_formed_piece (Hole ''B'')"
    by code_simp+
  have r: "brace_free ''A''" "no_opening ''{b}''" "brace_free ''B''" "no_opening ''x''"
    by code_simp+
  from w have 1: "\<forall>p\<in>set ?ps. well_formed_piece p" by simp
  from r have 2: "\<forall>(k, v)\<in>set ?rs. brace_free k \<and> no_opening v" by simp
  have 3: "distinct (map fst ?rs)" by simp
  have 4: "mset ?rs' = mset ?rs" by simp
  have 5: "substitute ?rs ''<{{A}}{{B}}'' = ''<{b}x''" by code_simp
  from order_irrelevant_for_well_formed_template [OF 1 2 3 4] w r 3 4 5
  show ?thesis by simp
qed

section \<open>The text around a placeholder\<close>

lemma replace_str_before_open:
  assumes "brace_free k"
  shows "replace_str (a @ ''{{'' @ r) (placeholder k) v
           = replace_str a (placeholder k) v @ replace_str (''{{'' @ r) (placeholder k) v"
proof (induction a rule: length_induct)
  case (1 a)
  let ?p = "placeholder k"
  show ?case
  proof (cases a)
    case Nil
    then show ?thesis by (simp add: replace_str_Nil)
  next
    case (Cons c a1)
    show ?thesis
    proof (cases "prefix ?p (a @ ''{{'' @ r)")
      case True
      from placeholder_no_overlap [OF True assms] Cons have "length ?p \<le> length a" by simp
      with True have "prefix ?p a" by (metis prefix_length_prefix prefixI)
      then obtain a2 where a2: "a = ?p @ a2" by (auto simp: prefix_def)
      then have "length a2 < length a" by simp
      with 1 have "replace_str (a2 @ ''{{'' @ r) ?p v
                     = replace_str a2 ?p v @ replace_str (''{{'' @ r) ?p v" by blast
      with a2 show ?thesis by (simp add: replace_str_match)
    next
      case False
      then have na: "\<not> prefix ?p a" by (metis prefix_prefix)
      from Cons have "length a1 < length a" by simp
      with 1 have "replace_str (a1 @ ''{{'' @ r) ?p v
                     = replace_str a1 ?p v @ replace_str (''{{'' @ r) ?p v" by blast
      with False na Cons show ?thesis by (simp add: replace_str_step)
    qed
  qed
qed

lemma replace_str_around_other:
  assumes "brace_free k" and "brace_free x" and "k \<noteq> x"
  shows "replace_str (a @ placeholder x @ b) (placeholder k) v
           = replace_str a (placeholder k) v @ placeholder x @ replace_str b (placeholder k) v"
proof -
  have "placeholder x @ b = ''{{'' @ (x @ ''}}'' @ b)" by (simp add: placeholder_def)
  with replace_str_before_open [OF assms(1), of a "x @ ''}}'' @ b" v]
  have "replace_str (a @ placeholder x @ b) (placeholder k) v
          = replace_str a (placeholder k) v @ replace_str (placeholder x @ b) (placeholder k) v"
    by simp
  with replace_str_other_Hole [OF assms] show ?thesis by simp
qed

lemma replace_str_at_own:
  assumes "brace_free k \<or> \<not> sublist (placeholder k) (a @ butlast (placeholder k))"
  shows "replace_str (a @ placeholder k @ b) (placeholder k) v
           = replace_str a (placeholder k) v @ v @ replace_str b (placeholder k) v"
proof (cases "brace_free k")
  case True
  have "placeholder k @ b = ''{{'' @ (k @ ''}}'' @ b)" by (simp add: placeholder_def)
  with replace_str_before_open [OF True, of a "k @ ''}}'' @ b" v]
  have "replace_str (a @ placeholder k @ b) (placeholder k) v
          = replace_str a (placeholder k) v @ replace_str (placeholder k @ b) (placeholder k) v"
    by simp
  then show ?thesis by (simp add: replace_str_match)
next
  case False
  with assms have f: "\<not> sublist (placeholder k) (a @ butlast (placeholder k))" by simp
  then have "\<not> sublist (placeholder k) a" by (metis sublist_append_rightI sublist_order.order_trans sublist_appendI append_Nil)
  then have "replace_str a (placeholder k) v = a" by (rule replace_str_absent)
  with replace_str_first [OF placeholder_not_Nil f] show ?thesis by simp
qed

lemma substitute_around_placeholder:
  assumes "brace_free X"
  shows "\<forall>(k, v)\<in>set rs. brace_free k \<Longrightarrow> X \<notin> fst ` set rs \<Longrightarrow>
         substitute rs (a @ placeholder X @ b)
           = substitute rs a @ placeholder X @ substitute rs b"
proof (induction rs arbitrary: a b)
  case Nil
  then show ?case by simp
next
  case (Cons r rs)
  obtain k v where r: "r = (k, v)" by (cases r)
  with Cons.prems have k: "brace_free k" "k \<noteq> X" by auto
  from Cons.prems r have rs: "\<forall>(k, v)\<in>set rs. brace_free k" "X \<notin> fst ` set rs" by auto
  from replace_str_around_other [OF k(1) assms k(2)] Cons.IH [OF rs] r
  show ?case by simp
qed

section \<open>Placeholders of unknown keys (C6)\<close>

text \<open>
  C6, as stated: a placeholder \<open>{{X}}\<close> of the input whose \<open>X\<close> is not a key appears
  unchanged in the output. A key may contain braces, and then its placeholder can cover
  \<open>{{X}}\<close>: with the single key \<open>X}}{{Y\<close> the input \<open>{{X}}{{Y}}\<close> is the placeholder
  of that key and becomes its value.
\<close>

theorem unknown_placeholder_counterexample:
  "substitute [(''X}}{{Y'', ''v'')] ''{{X}}{{Y}}'' = ''v''
   \<and> sublist (placeholder ''X'') ''{{X}}{{Y}}''
   \<and> ''X'' \<notin> fst ` set [(''X}}{{Y'', ''v'')]
   \<and> \<not> sublist (placeholder ''X'') ''v''"
proof -
  have "substitute [(''X}}{{Y'', ''v'')] ''{{X}}{{Y}}'' = ''v''" by code_simp
  moreover have "sublist (placeholder ''X'') ''{{X}}{{Y}}''" by code_simp
  moreover have "\<not> sublist (placeholder ''X'') ''v''" by code_simp
  ultimately show ?thesis by simp
qed

text \<open>
  C6, amended: when \<open>X\<close> and all keys are brace free and \<open>X\<close> is not a key, every
  placeholder \<open>{{X}}\<close> of the input text stands unchanged and in place in the output
  text, whatever the text around it and whatever the values: the output is the
  substitution of the text before it, then \<open>{{X}}\<close>, then the substitution of the text
  behind it.
\<close>

theorem unknown_placeholder_preserved:
  assumes "brace_free X" and "\<forall>(k, v)\<in>set rs. brace_free k" and "X \<notin> fst ` set rs"
  shows "substitute rs (a @ placeholder X @ b)
           = substitute rs a @ placeholder X @ substitute rs b"
  using assms by (rule substitute_around_placeholder)

theorem unknown_placeholder_preserved_witness:
  "brace_free ''X'' \<and> brace_free ''A'' \<and> ''X'' \<notin> fst ` set [(''A'', ''{{X}}'')]
   \<and> substitute [(''A'', ''{{X}}'')] (''{{A}} '' @ placeholder ''X'' @ '' {{X}}{{A}}'')
       = ''{{X}} '' @ placeholder ''X'' @ '' {{X}}{{X}}''
   \<and> substitute [(''A'', ''{{X}}'')] ''{{A}} {{X}} {{X}}{{A}}'' = ''{{X}} {{X}} {{X}}{{X}}''"
proof -
  have b: "brace_free ''X''" "brace_free ''A''" by code_simp+
  from b(2) have 2: "\<forall>(k, v)\<in>set [(''A'', ''{{X}}'')]. brace_free k" by simp
  have 3: "''X'' \<notin> fst ` set [(''A'', ''{{X}}'')]" by simp
  have 4: "substitute [(''A'', ''{{X}}'')] ''{{A}} '' = ''{{X}} ''" by code_simp
  have 5: "substitute [(''A'', ''{{X}}'')] '' {{X}}{{A}}'' = '' {{X}}{{X}}''" by code_simp
  from unknown_placeholder_preserved [OF b(1) 2 3, of "''{{A}} ''" "'' {{X}}{{A}}''"]
  have 6: "substitute [(''A'', ''{{X}}'')] (''{{A}} '' @ placeholder ''X'' @ '' {{X}}{{A}}'')
         = ''{{X}} '' @ placeholder ''X'' @ '' {{X}}{{X}}''"
    unfolding 4 5 .
  then have "substitute [(''A'', ''{{X}}'')] ''{{A}} {{X}} {{X}}{{A}}'' = ''{{X}} {{X}} {{X}}{{X}}''"
    by (simp add: placeholder_def)
  with b 3 6 show ?thesis by simp
qed

section \<open>Values that contain placeholders (C2)\<close>

text \<open>
  C2, as stated: a \<open>{{OTHERKEY}}\<close> inside the value of a key appears verbatim in the
  output. The loop applies one \<^verbatim>\<open>str.replace\<close> per key to the whole text produced so
  far, so a key applied later does scan the values inserted before: with \<open>A={{B}}\<close> and
  \<open>B=x\<close>, in this order, the input \<open>{{A}}\<close> becomes \<open>{{B}}\<close> and then \<open>x\<close>.
\<close>

theorem inserted_value_rescanned_counterexample:
  "fst (parse_replacements [''A={{B}}'', ''B=x''] [] (world_of []))
     = Inr [(''A'', ''{{B}}''), (''B'', ''x'')]
   \<and> substitute [(''A'', ''{{B}}''), (''B'', ''x'')] ''{{A}}'' = ''x''
   \<and> \<not> sublist ''{{B}}'' ''x''"
  by code_simp

text \<open>
  C2, amended: let the value of the key \<open>K\<close> contain \<open>{{OTHERKEY}}\<close>, where \<open>OTHERKEY\<close> is
  brace free and is not one of the keys applied after \<open>K\<close>, and let the keys applied
  after \<open>K\<close> be brace free. Then at a place where the pass for \<open>K\<close> replaces \<open>{{K}}\<close>
  (any occurrence in the text reached after the keys applied before \<open>K\<close> when \<open>K\<close> is
  brace free, and its first occurrence in any case) the \<open>{{OTHERKEY}}\<close> of the inserted
  value stands verbatim and in place in the output: the output is what the keys applied
  after \<open>K\<close> make of the text before it, then \<open>{{OTHERKEY}}\<close>, then what they make of
  the text behind it.
\<close>

theorem inserted_placeholder_kept_by_later_keys:
  assumes "substitute before html = a @ placeholder K @ b"
    and "brace_free K \<or> \<not> sublist (placeholder K) (a @ butlast (placeholder K))"
    and "value = v1 @ placeholder other @ v2"
    and "brace_free other"
    and "\<forall>(k, v)\<in>set after. brace_free k"
    and "other \<notin> fst ` set after"
  shows "substitute (before @ (K, value) # after) html
           = substitute after (replace_str a (placeholder K) value @ v1)
             @ placeholder other
             @ substitute after (v2 @ replace_str b (placeholder K) value)"
proof -
  have "substitute (before @ (K, value) # after) html
          = substitute after (replace_str (a @ placeholder K @ b) (placeholder K) value)"
    using assms(1) by simp
  also have "replace_str (a @ placeholder K @ b) (placeholder K) value
          = (replace_str a (placeholder K) value @ v1) @ placeholder other
            @ (v2 @ replace_str b (placeholder K) value)"
    using replace_str_at_own [OF assms(2), of b "value"] assms(3) by simp
  also have "substitute after \<dots>
          = substitute after (replace_str a (placeholder K) value @ v1) @ placeholder other
            @ substitute after (v2 @ replace_str b (placeholder K) value)"
    by (rule substitute_around_placeholder [OF assms(4,5,6)])
  finally show ?thesis .
qed

theorem inserted_placeholder_kept_by_later_keys_witness:
  "substitute [(''B'', ''x'')] ''{{B}}-{{A}}-{{C}}'' = ''x-'' @ placeholder ''A'' @ ''-{{C}}''
   \<and> brace_free ''A'' \<and> ''<{{B}}>'' = ''<'' @ placeholder ''B'' @ ''>''
   \<and> brace_free ''B'' \<and> brace_free ''C'' \<and> ''B'' \<notin> fst ` set [(''C'', ''z'')]
   \<and> substitute ([(''B'', ''x'')] @ (''A'', ''<{{B}}>'') # [(''C'', ''z'')]) ''{{B}}-{{A}}-{{C}}''
       = ''x-<'' @ placeholder ''B'' @ ''>-z''
   \<and> substitute [(''B'', ''x''), (''A'', ''<{{B}}>''), (''C'', ''z'')] ''{{B}}-{{A}}-{{C}}''
       = ''x-<{{B}}>-z''"
proof -
  have 1: "substitute [(''B'', ''x'')] ''{{B}}-{{A}}-{{C}}'' = ''x-'' @ placeholder ''A'' @ ''-{{C}}''"
    by code_simp
  have bf: "brace_free ''A''" "brace_free ''B''" "brace_free ''C''" by code_simp+
  from bf(1) have 2: "brace_free ''A''
      \<or> \<not> sublist (placeholder ''A'') (''x-'' @ butlast (placeholder ''A''))" by simp
  have 3: "''<{{B}}>'' = ''<'' @ placeholder ''B'' @ ''>''" by (simp add: placeholder_def)
  from bf(3) have 5: "\<forall>(k, v)\<in>set [(''C'', ''z'')]. brace_free k" by simp
  have 6: "''B'' \<notin> fst ` set [(''C'', ''z'')]" by simp
  have 7: "substitute [(''C'', ''z'')] (replace_str ''x-'' (placeholder ''A'') ''<{{B}}>'' @ ''<'')
             = ''x-<''" by code_simp
  have 8: "substitute [(''C'', ''z'')] (''>'' @ replace_str ''-{{C}}'' (placeholder ''A'') ''<{{B}}>'')
             = ''>-z''" by code_simp
  from inserted_placeholder_kept_by_later_keys [OF 1 2 3 bf(2) 5 6]
  have 9: "substitute ([(''B'', ''x'')] @ (''A'', ''<{{B}}>'') # [(''C'', ''z'')]) ''{{B}}-{{A}}-{{C}}''
       = ''x-<'' @ placeholder ''B'' @ ''>-z''"
    unfolding 7 8 .
  then have "substitute [(''B'', ''x''), (''A'', ''<{{B}}>''), (''C'', ''z'')] ''{{B}}-{{A}}-{{C}}''
       = ''x-<{{B}}>-z''"
    by (simp add: placeholder_def)
  with 1 bf 3 6 9 show ?thesis by simp
qed

end
